theory Spec2Isabelle
  imports Complex_Main
begin

section \<open>The rate limiter of evelink/rate\_limit.py\<close>

text \<open>
  The module holds two classes. \<open>RateLimit\<close> keeps a deque \<open>recents\<close> of at most
  \<open>limit\<close> slots; a slot is \<open>None\<close> while its action is running and the finish time
  once it was released. \<open>RateLimitManager\<close> owns two such limiters.

  Conventions of the embedding.
  \<^item> Time stamps and clock readings are Python floats; they are only added, subtracted and
    compared, and are taken here as real numbers.
  \<^item> \<open>time.time()\<close> reads a clock that the embedding passes along explicitly:
    every function that reads the clock takes the reading \<open>now\<close>, and
    \<open>time.sleep(d)\<close> moves that reading forward by exactly \<open>d\<close>. A negative
    \<open>d\<close> makes \<open>time.sleep\<close> raise \<open>ValueError\<close>.
  \<^item> Every method body runs under \<open>self.__lock\<close>, so a run from taking the lock to
    giving it up (at the end of the method, at an exception, or in \<open>cond.wait()\<close>) is one
    atomic step on the limiter. The condition variable is kept as two counters: the threads
    blocked in \<open>wait()\<close> and the threads already notified that have not yet taken
    the lock again. All waiting threads stand at the same program point and own no local
    state, so counting them is enough.
\<close>

subsection \<open>Exceptions and the deque\<close>

datatype py_error = IndexError | ValueError

text \<open>\<open>collections.deque(maxlen=n).append(x)\<close>: a full deque drops its leftmost item.\<close>

definition deque_append :: "nat \<Rightarrow> 'a list \<Rightarrow> 'a \<Rightarrow> 'a list" where
  "deque_append maxlen xs x =
     (let ys = xs @ [x] in if maxlen < length ys then tl ys else ys)"

text \<open>\<open>deque.remove(v)\<close>: deletes the first occurrence, \<open>ValueError\<close> if there is none.\<close>

fun deque_remove :: "'a \<Rightarrow> 'a list \<Rightarrow> py_error + 'a list" where
  "deque_remove v [] = Inl ValueError"
| "deque_remove v (x # xs) =
     (if x = v then Inr xs
      else (case deque_remove v xs of Inl e \<Rightarrow> Inl e | Inr ys \<Rightarrow> Inr (x # ys)))"

text \<open>
  \<open>time.sleep(d)\<close> at clock reading \<open>now\<close>: the reading afterwards. A negative
  \<open>d\<close> raises (\<open>ValueError\<close> in Python 3, \<open>IOError\<close> in Python 2; one constructor
  stands for both).
\<close>

definition time_sleep :: "real \<Rightarrow> real \<Rightarrow> py_error + real" where
  "time_sleep now d = (if d < 0 then Inl ValueError else Inr (now + d))"

subsection \<open>RateLimit\<close>

record rate_limit =
  limit :: nat
  window :: real
  recents :: "real option list"
  waiters :: nat
  notified :: nat

text \<open>\<open>RateLimit.__init__(limit, window_secs)\<close>.\<close>

definition RateLimit_init :: "nat \<Rightarrow> real \<Rightarrow> rate_limit" where
  "RateLimit_init n window_secs =
     \<lparr>limit = n, window = window_secs, recents = [], waiters = 0, notified = 0\<rparr>"

text \<open>
  \<open>__forget_old\<close>: the loop
  \<^verbatim>\<open>while recents and recents[0] is not None and recents[0] < threshold: recents.popleft()\<close>
\<close>

fun forget_old_loop :: "real \<Rightarrow> real option list \<Rightarrow> real option list" where
  "forget_old_loop threshold [] = []"
| "forget_old_loop threshold (None # rs) = None # rs"
| "forget_old_loop threshold (Some t # rs) =
     (if t < threshold then forget_old_loop threshold rs else Some t # rs)"

definition forget_old :: "real \<Rightarrow> rate_limit \<Rightarrow> rate_limit" where
  "forget_old now s =
     (let threshold = now - window s
      in s\<lparr>recents := forget_old_loop threshold (recents s)\<rparr>)"

text \<open>\<open>self.__cond.notify()\<close>: one blocked thread, if there is one, becomes runnable.\<close>

definition cond_notify :: "rate_limit \<Rightarrow> rate_limit" where
  "cond_notify s =
     (if waiters s = 0 then s
      else s\<lparr>waiters := waiters s - 1, notified := Suc (notified s)\<rparr>)"

text \<open>
  The loop of \<open>release\<close> over \<open>enumerate(self.recents)\<close>: the first \<open>None\<close> becomes
  \<open>ts_finished\<close>; without a \<open>None\<close> the loop ends having changed nothing.
\<close>

fun fill_leftmost :: "real \<Rightarrow> real option list \<Rightarrow> real option list" where
  "fill_leftmost ts_finished [] = []"
| "fill_leftmost ts_finished (None # rs) = Some ts_finished # rs"
| "fill_leftmost ts_finished (Some t # rs) = Some t # fill_leftmost ts_finished rs"

text \<open>
  \<open>release(ts_finished, does_not_count)\<close>. \<open>Inl\<close> is the exception escaping the method; the
  limiter is then as it was before the call, and \<open>notify\<close> was not reached.
\<close>

definition release :: "real \<Rightarrow> bool \<Rightarrow> rate_limit \<Rightarrow> py_error + rate_limit" where
  "release ts_finished does_not_count s =
     (if does_not_count then
        (case deque_remove None (recents s) of
           Inl e \<Rightarrow> Inl e
         | Inr rs \<Rightarrow> Inr (cond_notify (s\<lparr>recents := rs\<rparr>)))
      else Inr (cond_notify (s\<lparr>recents := fill_leftmost ts_finished (recents s)\<rparr>)))"

text \<open>
  How a run of \<open>reserve\<close> under the lock ends: the slot was appended and the method
  returned, the thread went to sleep in \<open>cond.wait()\<close>, or an exception escaped.
\<close>

datatype status = Reserved | Waiting | Raised py_error

text \<open>
  The loops of \<open>reserve\<close>. \<open>woken\<close> tells where control stands: \<open>False\<close> at the test
  of the outer \<open>while len(self.recents) == self.limit\<close>, \<open>True\<close> at the test of the inner
  \<open>while self.recents[0] is None\<close> (where a thread continues after \<open>wait()\<close>).
  The result is the way the run ends, the clock reading then, and the limiter.
\<close>

function reserve_loop :: "bool \<Rightarrow> real \<Rightarrow> rate_limit \<Rightarrow> status \<times> real \<times> rate_limit" where
  "reserve_loop woken now s =
     (if woken \<or> length (recents s) = limit s then
        (case recents s of
           [] \<Rightarrow> (Raised IndexError, now, s)
         | None # _ \<Rightarrow> (Waiting, now, s\<lparr>waiters := Suc (waiters s)\<rparr>)
         | Some t # _ \<Rightarrow>
             (let epoch_okay = t + window s;
                  secs_to_wait = epoch_okay - now
              in (case time_sleep now (secs_to_wait + 1 / 1000) of
                    Inl e \<Rightarrow> (Raised e, now, s)
                  | Inr now' \<Rightarrow> reserve_loop False now' (forget_old now' s))))
      else (Reserved, now, s\<lparr>recents := deque_append (limit s) (recents s) None\<rparr>))"
  by pat_completeness auto
termination
proof (relation "measure (\<lambda>(woken, now, s). length (recents s))")
  show "wf (measure (\<lambda>(woken, now, s). length (recents s)))"
    by simp
next
  fix woken :: bool and now :: real and s :: rate_limit
    and r :: "real option" and rest :: "real option list"
    and t epoch_okay secs_to_wait now' :: real
  assume cons: "recents s = r # rest"
    and comp: "r = Some t"
    and okay: "epoch_okay = t + window s"
    and secs: "secs_to_wait = epoch_okay - now"
    and slept: "time_sleep now (secs_to_wait + 1 / 1000) = Inr now'"
  from cons comp have front: "recents s = Some t # rest"
    by simp
  have shrink: "length (forget_old_loop th rs) \<le> length rs" for th rs
    by (induction th rs rule: forget_old_loop.induct) auto
  from slept okay secs have "now' = t + window s + 1 / 1000"
    by (auto simp: time_sleep_def split: if_splits)
  then have "t < now' - window s"
    by simp
  then have "recents (forget_old now' s) = forget_old_loop (now' - window s) rest"
    by (simp add: forget_old_def front)
  then have "length (recents (forget_old now' s)) < length (recents s)"
    using shrink [of "now' - window s" rest] by (simp add: front)
  then show "((False, now', forget_old now' s), (woken, now, s))
      \<in> measure (\<lambda>(woken, now, s). length (recents s))"
    by simp
qed

declare reserve_loop.simps [simp del]

text \<open>\<open>reserve()\<close> from its first line up to the first point where the lock is given up.\<close>

definition reserve :: "real \<Rightarrow> rate_limit \<Rightarrow> status \<times> real \<times> rate_limit" where
  "reserve now s = reserve_loop False now (forget_old now s)"

text \<open>
  A notified thread takes the lock again at clock reading \<open>now\<close> and goes on inside
  \<open>reserve\<close>. Without a notified thread there is nothing to run.
\<close>

definition reserve_wake :: "real \<Rightarrow> rate_limit \<Rightarrow> status \<times> real \<times> rate_limit" where
  "reserve_wake now s = reserve_loop True now (s\<lparr>notified := notified s - 1\<rparr>)"

subsection \<open>Calls on one limiter, in the order in which they take the lock\<close>

text \<open>
  Whatever the threads do, the lock puts their runs on one limiter in a sequence. An event is
  one such run: a call of \<open>reserve\<close> entered at clock reading \<open>now\<close>, a notified thread
  going on at \<open>now\<close> (nothing happens when no thread was notified), or a call of
  \<open>release\<close>. A run that ends in an exception leaves the limiter as the exception found it.
\<close>

datatype event = Reserve real | Wake real | Release real bool

fun apply_event :: "event \<Rightarrow> rate_limit \<Rightarrow> rate_limit" where
  "apply_event (Reserve now) s = snd (snd (reserve now s))"
| "apply_event (Wake now) s =
     (if notified s = 0 then s else snd (snd (reserve_wake now s)))"
| "apply_event (Release ts_finished does_not_count) s =
     (case release ts_finished does_not_count s of Inl e \<Rightarrow> s | Inr s' \<Rightarrow> s')"

fun run :: "event list \<Rightarrow> rate_limit \<Rightarrow> rate_limit" where
  "run [] s = s"
| "run (e # es) s = run es (apply_event e s)"

subsection \<open>Vocabulary of the properties\<close>

text \<open>A record is expired at \<open>now\<close> when it is completed and strictly older than \<open>now - window\<close>.\<close>

fun expired :: "real \<Rightarrow> real \<Rightarrow> real option \<Rightarrow> bool" where
  "expired now w None = False"
| "expired now w (Some t) = (t < now - w)"

text \<open>The time stamps of the completed records, in queue order.\<close>

fun completed :: "real option list \<Rightarrow> real list" where
  "completed [] = []"
| "completed (None # rs) = completed rs"
| "completed (Some t # rs) = t # completed rs"

text \<open>The time stamps handed to the counting calls of \<open>release\<close>, in call order.\<close>

fun completion_times :: "event list \<Rightarrow> real list" where
  "completion_times [] = []"
| "completion_times (Release ts_finished False # es) = ts_finished # completion_times es"
| "completion_times (e # es) = completion_times es"

text \<open>Every pending record stands behind every completed one.\<close>

fun pending_last :: "real option list \<Rightarrow> bool" where
  "pending_last [] = True"
| "pending_last (Some t # rs) = pending_last rs"
| "pending_last (None # rs) = (completed rs = [])"

subsection \<open>RateLimitManager\<close>

record rate_limit_manager =
  request_limit :: rate_limit
  error_limit :: rate_limit

text \<open>\<open>RateLimitManager.__init__\<close>.\<close>

definition RateLimitManager_init :: rate_limit_manager where
  "RateLimitManager_init =
     \<lparr>request_limit = RateLimit_init 30 1, error_limit = RateLimit_init 300 180\<rparr>"

text \<open>
  How a run of \<open>block_until_can_start_new_request\<close> ends: it returned the elapsed time, the
  thread is blocked inside \<open>request_limit.reserve()\<close> or inside \<open>error_limit.reserve()\<close>,
  or an exception escaped.
\<close>

datatype admission = Admitted real | Blocked_on_request | Blocked_on_error | Failed py_error

text \<open>
  The last two lines of \<open>block_until_can_start_new_request\<close>, given what
  \<open>self.error_limit.reserve()\<close> did: \<open>return time.time() - start\<close>.
\<close>

fun after_error_reserve ::
  "real \<Rightarrow> rate_limit_manager \<Rightarrow> status \<times> real \<times> rate_limit
     \<Rightarrow> admission \<times> real \<times> rate_limit_manager" where
  "after_error_reserve start m (Reserved, now, e) =
     (Admitted (now - start), now, m\<lparr>error_limit := e\<rparr>)"
| "after_error_reserve start m (Waiting, now, e) =
     (Blocked_on_error, now, m\<lparr>error_limit := e\<rparr>)"
| "after_error_reserve start m (Raised err, now, e) =
     (Failed err, now, m\<lparr>error_limit := e\<rparr>)"

text \<open>The method from the return of \<open>self.request_limit.reserve()\<close> on.\<close>

fun after_request_reserve ::
  "real \<Rightarrow> rate_limit_manager \<Rightarrow> status \<times> real \<times> rate_limit
     \<Rightarrow> admission \<times> real \<times> rate_limit_manager" where
  "after_request_reserve start m (Reserved, now, r) =
     after_error_reserve start (m\<lparr>request_limit := r\<rparr>)
       (reserve now (error_limit (m\<lparr>request_limit := r\<rparr>)))"
| "after_request_reserve start m (Waiting, now, r) =
     (Blocked_on_request, now, m\<lparr>request_limit := r\<rparr>)"
| "after_request_reserve start m (Raised err, now, r) =
     (Failed err, now, m\<lparr>request_limit := r\<rparr>)"

text \<open>\<open>block_until_can_start_new_request()\<close> entered at clock reading \<open>now\<close>.\<close>

definition block_until_can_start_new_request ::
  "real \<Rightarrow> rate_limit_manager \<Rightarrow> admission \<times> real \<times> rate_limit_manager" where
  "block_until_can_start_new_request now m =
     (let start = now in after_request_reserve start m (reserve now (request_limit m)))"

text \<open>
  A thread that entered the method at \<open>start\<close> and was blocked goes on at clock reading
  \<open>now\<close>, inside the request limiter or inside the error limiter.
\<close>

definition wake_in_request ::
  "real \<Rightarrow> real \<Rightarrow> rate_limit_manager \<Rightarrow> admission \<times> real \<times> rate_limit_manager" where
  "wake_in_request start now m =
     after_request_reserve start m (reserve_wake now (request_limit m))"

definition wake_in_error ::
  "real \<Rightarrow> real \<Rightarrow> rate_limit_manager \<Rightarrow> admission \<times> real \<times> rate_limit_manager" where
  "wake_in_error start now m =
     after_error_reserve start m (reserve_wake now (error_limit m))"

text \<open>
  \<open>finished(success)\<close> called at clock reading \<open>now\<close>. The result holds the exception, if
  one escaped, and the manager as the call left it.
\<close>

definition finished ::
  "bool \<Rightarrow> real \<Rightarrow> rate_limit_manager \<Rightarrow> py_error option \<times> rate_limit_manager" where
  "finished success now m =
     (let ts_finished = now in
      case release ts_finished False (request_limit m) of
        Inl err \<Rightarrow> (Some err, m)
      | Inr r \<Rightarrow>
          (case release ts_finished success (error_limit m) of
             Inl err \<Rightarrow> (Some err, m\<lparr>request_limit := r\<rparr>)
           | Inr e \<Rightarrow> (None, m\<lparr>request_limit := r, error_limit := e\<rparr>)))"

text \<open>Calls on the manager, in the order in which they happen.\<close>

datatype manager_event =
  Admit real | Wake_request real real | Wake_error real real | Finished bool real

fun apply_manager_event :: "manager_event \<Rightarrow> rate_limit_manager \<Rightarrow> rate_limit_manager" where
  "apply_manager_event (Admit now) m = snd (snd (block_until_can_start_new_request now m))"
| "apply_manager_event (Wake_request start now) m =
     (if notified (request_limit m) = 0 then m else snd (snd (wake_in_request start now m)))"
| "apply_manager_event (Wake_error start now) m =
     (if notified (error_limit m) = 0 then m else snd (snd (wake_in_error start now m)))"
| "apply_manager_event (Finished success now) m = snd (finished success now m)"

fun run_manager :: "manager_event list \<Rightarrow> rate_limit_manager \<Rightarrow> rate_limit_manager" where
  "run_manager [] m = m"
| "run_manager (c # cs) m = run_manager cs (apply_manager_event c m)"

subsection \<open>Predicates used in the proofs\<close>

text \<open>
  The limiter \<open>s'\<close> is a possible result of the loops of \<open>reserve\<close> started on \<open>s\<close> and
  ended with \<open>st\<close>: \<open>k\<close> records were dropped at the front, and a pending record was appended
  exactly when the run returned.
\<close>

definition loop_result :: "rate_limit \<Rightarrow> status \<Rightarrow> rate_limit \<Rightarrow> nat \<Rightarrow> bool" where
  "loop_result s st s' k \<longleftrightarrow>
     limit s' = limit s \<and> window s' = window s \<and> notified s' = notified s \<and>
     (st = Reserved \<and> length (drop k (recents s)) \<noteq> limit s \<and> waiters s' = waiters s \<and>
        recents s' = deque_append (limit s) (drop k (recents s)) None
      \<or> st \<noteq> Reserved \<and> recents s' = drop k (recents s))"

text \<open>The queue is within its capacity, and its pending records stand last.\<close>

definition well_formed :: "rate_limit \<Rightarrow> bool" where
  "well_formed s \<longleftrightarrow> length (recents s) \<le> limit s \<and> pending_last (recents s)"

section \<open>Properties\<close>

subsection \<open>Expiry and the loops of reserve\<close>


lemma forget_old_loop_dropWhile:
  "forget_old_loop (now - w) rs = dropWhile (expired now w) rs"
  by (induction "now - w" rs rule: forget_old_loop.induct) auto

lemma forget_old_loop_drop:
  "\<exists>k. forget_old_loop th rs = drop k rs"
proof (induction th rs rule: forget_old_loop.induct)
  case (1 th)
  show ?case by simp
next
  case (2 th rs)
  have "forget_old_loop th (None # rs) = drop 0 (None # rs)" by simp
  then show ?case by blast
next
  case (3 th t rs)
  show ?case
  proof (cases "t < th")
    case True
    with 3 obtain k where "forget_old_loop th rs = drop k rs" by auto
    with True have "forget_old_loop th (Some t # rs) = drop (Suc k) (Some t # rs)" by simp
    then show ?thesis by blast
  next
    case False
    then have "forget_old_loop th (Some t # rs) = drop 0 (Some t # rs)" by simp
    then show ?thesis by blast
  qed
qed

lemma forget_old_fields [simp]:
  "limit (forget_old now s) = limit s"
  "window (forget_old now s) = window s"
  "waiters (forget_old now s) = waiters s"
  "notified (forget_old now s) = notified s"
  by (simp_all add: forget_old_def)

lemma forget_old_drop: "\<exists>k. recents (forget_old now s) = drop k (recents s)"
  using forget_old_loop_drop [of "now - window s" "recents s"] by (simp add: forget_old_def)


lemma loop_result_forget_old:
  assumes "loop_result (forget_old t s) st s' k"
  shows "\<exists>j. loop_result s st s' j"
proof -
  obtain j where j: "recents (forget_old t s) = drop j (recents s)"
    using forget_old_drop by blast
  have "drop k (recents (forget_old t s)) = drop (k + j) (recents s)"
    by (simp add: j add.commute)
  with assms have "loop_result s st s' (k + j)"
    by (simp add: loop_result_def)
  then show ?thesis ..
qed

lemma reserve_loop_shape:
  "reserve_loop woken now s = (st, now', s') \<Longrightarrow> \<exists>k. loop_result s st s' k"
proof (induction woken now s arbitrary: st now' s' rule: reserve_loop.induct)
  case (1 woken now s)
  note step = reserve_loop.simps [of woken now s]
  show ?case
  proof (cases "woken \<or> length (recents s) = limit s")
    case False
    with 1(2) step have "st = Reserved" "s' = s\<lparr>recents := deque_append (limit s) (recents s) None\<rparr>"
      by auto
    with False have "loop_result s st s' 0"
      by (simp add: loop_result_def)
    then show ?thesis ..
  next
    case True
    show ?thesis
    proof (cases "recents s")
      case Nil
      with True 1(2) step have "st = Raised IndexError" "s' = s" by auto
      then have "loop_result s st s' 0" by (simp add: loop_result_def)
      then show ?thesis ..
    next
      case (Cons r rest)
      show ?thesis
      proof (cases r)
        case None
        with Cons True 1(2) step have "st = Waiting" "s' = s\<lparr>waiters := Suc (waiters s)\<rparr>" by auto
        then have "loop_result s st s' 0" by (simp add: loop_result_def)
        then show ?thesis ..
      next
        case (Some t)
        show ?thesis
        proof (cases "time_sleep now (t + window s - now + 1 / 1000)")
          case (Inl e)
          with Some Cons True 1(2) step have "st = Raised e" "s' = s" by auto
          then have "loop_result s st s' 0" by (simp add: loop_result_def)
          then show ?thesis ..
        next
          case (Inr t')
          with Some Cons True 1(2) step
          have rec: "reserve_loop False t' (forget_old t' s) = (st, now', s')" by auto
          from "1.IH" [OF True Cons Some refl refl Inr rec]
          obtain k where "loop_result (forget_old t' s) st s' k" ..
          then show ?thesis by (rule loop_result_forget_old)
        qed
      qed
    qed
  qed
qed

lemma reserve_shape: "reserve now s = (st, now', s') \<Longrightarrow> \<exists>k. loop_result s st s' k"
  unfolding reserve_def by (blast dest: reserve_loop_shape loop_result_forget_old)

lemma reserve_wake_shape:
  assumes "reserve_wake now s = (st, now', s')"
  shows "\<exists>k. loop_result (s\<lparr>notified := notified s - 1\<rparr>) st s' k"
  using assms unfolding reserve_wake_def by (rule reserve_loop_shape)

subsection \<open>Lists of records\<close>

lemma completed_append [simp]: "completed (xs @ ys) = completed xs @ completed ys"
  by (induction xs rule: completed.induct) auto

lemma completed_replicate_None [simp]: "completed (replicate k None) = []"
  by (induction k) auto

lemma completed_Nil_replicate: "completed rs = [] \<Longrightarrow> rs = replicate (length rs) None"
  by (induction rs rule: completed.induct) auto

lemma completed_Nil_pending_last: "completed rs = [] \<Longrightarrow> pending_last rs"
  by (induction rs rule: completed.induct) auto

lemma completed_drop: "\<exists>j. completed (drop k rs) = drop j (completed rs)"
proof (induction rs arbitrary: k rule: completed.induct)
  case 1
  show ?case by simp
next
  case (2 rs)
  show ?case
  proof (cases k)
    case 0
    have "completed (drop 0 (None # rs)) = drop 0 (completed (None # rs))" by simp
    with 0 show ?thesis by blast
  next
    case (Suc k')
    with 2 [of k'] show ?thesis by simp
  qed
next
  case (3 t rs)
  show ?case
  proof (cases k)
    case 0
    have "completed (drop 0 (Some t # rs)) = drop 0 (completed (Some t # rs))" by simp
    with 0 show ?thesis by blast
  next
    case (Suc k')
    from 3 [of k'] obtain j where "completed (drop k' rs) = drop j (completed rs)" ..
    with Suc have "completed (drop k (Some t # rs)) = drop (Suc j) (completed (Some t # rs))"
      by simp
    then show ?thesis ..
  qed
qed

lemma completed_drop_Nil: "completed rs = [] \<Longrightarrow> completed (drop k rs) = []"
  using completed_drop [of k rs] by auto

lemma pending_last_drop: "pending_last rs \<Longrightarrow> pending_last (drop k rs)"
proof (induction rs arbitrary: k rule: pending_last.induct)
  case 1
  show ?case by simp
next
  case (2 t rs)
  then show ?case by (cases k) auto
next
  case (3 rs)
  then show ?case
    by (cases k) (auto simp: completed_drop_Nil completed_Nil_pending_last)
qed

lemma pending_last_snoc: "pending_last rs \<Longrightarrow> pending_last (rs @ [None])"
  by (induction rs rule: pending_last.induct) auto

lemma length_fill_leftmost [simp]: "length (fill_leftmost ts rs) = length rs"
  by (induction ts rs rule: fill_leftmost.induct) auto

lemma fill_leftmost_no_pending: "None \<notin> set rs \<Longrightarrow> fill_leftmost ts rs = rs"
  by (induction ts rs rule: fill_leftmost.induct) auto

lemma completed_fill_leftmost:
  "pending_last rs \<Longrightarrow> None \<in> set rs \<Longrightarrow> completed (fill_leftmost ts rs) = completed rs @ [ts]"
  by (induction ts rs rule: fill_leftmost.induct) auto

lemma pending_last_fill_leftmost: "pending_last rs \<Longrightarrow> pending_last (fill_leftmost ts rs)"
  by (induction ts rs rule: fill_leftmost.induct) (auto simp: completed_Nil_pending_last)

lemma deque_remove_absent: "v \<notin> set rs \<Longrightarrow> deque_remove v rs = Inl ValueError"
  by (induction rs) auto

lemma deque_remove_None:
  "deque_remove None rs = Inr rs' \<Longrightarrow>
     Suc (length rs') = length rs \<and> completed rs' = completed rs \<and>
     (pending_last rs \<longrightarrow> pending_last rs')"
proof (induction rs arbitrary: rs')
  case Nil
  then show ?case by simp
next
  case (Cons r rs)
  show ?case
  proof (cases r)
    case None
    with Cons.prems show ?thesis by (auto simp: completed_Nil_pending_last)
  next
    case (Some t)
    with Cons.prems obtain ys where ys: "deque_remove None rs = Inr ys" "rs' = Some t # ys"
      by (auto split: sum.splits)
    from Cons.IH [OF ys(1)] ys(2) Some show ?thesis by simp
  qed
qed

lemma deque_remove_snoc: "pending_last rs \<Longrightarrow> deque_remove None (rs @ [None]) = Inr rs"
proof (induction rs rule: pending_last.induct)
  case 1
  show ?case by simp
next
  case (2 t rs)
  then show ?case by simp
next
  case (3 rs)
  then have "rs = replicate (length rs) None"
    by (simp add: completed_Nil_replicate)
  then have "rs @ [None] = None # rs"
    by (metis replicate_append_same)
  then show ?case by simp
qed

lemma cond_notify_fields [simp]:
  "limit (cond_notify s) = limit s"
  "window (cond_notify s) = window s"
  "recents (cond_notify s) = recents s"
  by (simp_all add: cond_notify_def)

subsection \<open>The invariant of the reachable limiters\<close>

lemma well_formed_init: "well_formed (RateLimit_init n w)"
  by (simp add: well_formed_def RateLimit_init_def)

lemma deque_append_room: "length xs < n \<Longrightarrow> deque_append n xs x = xs @ [x]"
  by (simp add: deque_append_def)

lemma loop_result_Reserved:
  assumes "loop_result s Reserved s' k" and "length (recents s) \<le> limit s"
  shows "recents s' = drop k (recents s) @ [None] \<and> length (drop k (recents s)) < limit s"
proof -
  from assms have "length (drop k (recents s)) < limit s"
    by (auto simp: loop_result_def)
  with assms(1) show ?thesis
    by (simp add: loop_result_def deque_append_room)
qed

lemma loop_result_not_Reserved:
  "loop_result s st s' k \<Longrightarrow> st \<noteq> Reserved \<Longrightarrow> recents s' = drop k (recents s)"
  by (simp add: loop_result_def)

lemma loop_result_well_formed:
  assumes "loop_result s st s' k" and "well_formed s"
  shows "well_formed s'"
proof (cases "st = Reserved")
  case True
  with assms have "recents s' = drop k (recents s) @ [None]"
    and "length (drop k (recents s)) < limit s"
    using loop_result_Reserved [of s s' k] by (simp_all add: well_formed_def)
  moreover from assms have "limit s' = limit s" "pending_last (drop k (recents s))"
    by (simp_all add: loop_result_def well_formed_def pending_last_drop)
  ultimately show ?thesis
    by (simp add: well_formed_def pending_last_snoc)
next
  case False
  with assms have "recents s' = drop k (recents s)" "limit s' = limit s"
    by (simp_all add: loop_result_def)
  with assms(2) show ?thesis
    by (auto simp: well_formed_def pending_last_drop)
qed

lemma loop_result_completed:
  assumes "loop_result s st s' k" and "length (recents s) \<le> limit s"
  shows "\<exists>j. completed (recents s') = drop j (completed (recents s))"
proof (cases "st = Reserved")
  case True
  with assms have "recents s' = drop k (recents s) @ [None]"
    using loop_result_Reserved [of s s' k] by simp
  then show ?thesis by (simp add: completed_drop)
next
  case False
  with assms have "recents s' = drop k (recents s)"
    by (simp add: loop_result_def)
  then show ?thesis by (simp add: completed_drop)
qed

lemma release_well_formed:
  assumes "release ts dnc s = Inr s'" and "well_formed s"
  shows "well_formed s'"
proof (cases dnc)
  case True
  with assms(1) obtain rs where rs: "deque_remove None (recents s) = Inr rs"
    and s': "s' = cond_notify (s\<lparr>recents := rs\<rparr>)"
    by (auto simp: release_def split: sum.splits)
  from deque_remove_None [OF rs] assms(2) show ?thesis
    by (simp add: s' well_formed_def)
next
  case False
  with assms(1) have "s' = cond_notify (s\<lparr>recents := fill_leftmost ts (recents s)\<rparr>)"
    by (simp add: release_def)
  with assms(2) show ?thesis
    by (simp add: well_formed_def pending_last_fill_leftmost)
qed


lemma apply_event_well_formed: "well_formed s \<Longrightarrow> well_formed (apply_event e s)"
proof (cases e)
  case (Reserve now)
  assume wf: "well_formed s"
  obtain st now' s' where r: "reserve now s = (st, now', s')"
    by (cases "reserve now s") auto
  from reserve_shape [OF r] wf have "well_formed s'"
    by (blast intro: loop_result_well_formed)
  with Reserve r show ?thesis by simp
next
  case (Wake now)
  assume wf: "well_formed s"
  obtain st now' s' where r: "reserve_wake now s = (st, now', s')"
    by (cases "reserve_wake now s") auto
  from wf have "well_formed (s\<lparr>notified := notified s - 1\<rparr>)"
    by (simp add: well_formed_def)
  with reserve_wake_shape [OF r] have "well_formed s'"
    by (blast intro: loop_result_well_formed)
  with Wake r wf show ?thesis by simp
next
  case (Release ts dnc)
  assume wf: "well_formed s"
  with Release show ?thesis
    by (cases "release ts dnc s") (auto intro: release_well_formed)
qed


lemma run_well_formed: "well_formed s \<Longrightarrow> well_formed (run evs s)"
  by (induction evs arbitrary: s) (auto intro: apply_event_well_formed)


lemma reachable_well_formed: "well_formed (run evs (RateLimit_init n w))"
  by (rule run_well_formed) (rule well_formed_init)


subsection \<open>Capacity\<close>



subsection \<open>Expiry\<close>

text \<open>
  Claim C2. \<open>__forget_old\<close>, run at clock reading \<open>now\<close>, changes nothing but the queue and
  removes exactly the longest front run of expired records (completed, with a time stamp
  strictly below \<open>now - window\<close>): the queue is the removed run followed by what is left,
  every removed record is completed and that old, and what is left is empty or starts
  with a pending record or with a completed one whose time stamp is at least
  \<open>now - window\<close>.
\<close>

theorem forget_old_removes_expired_front:
  "forget_old now s = s\<lparr>recents := dropWhile (expired now (window s)) (recents s)\<rparr> \<and>
   recents s = takeWhile (expired now (window s)) (recents s) @ recents (forget_old now s) \<and>
   (\<forall>r \<in> set (takeWhile (expired now (window s)) (recents s)).
      \<exists>t. r = Some t \<and> t < now - window s) \<and>
   (case recents (forget_old now s) of
      [] \<Rightarrow> True
    | None # _ \<Rightarrow> True
    | Some t # _ \<Rightarrow> now - window s \<le> t)"
proof -
  let ?P = "expired now (window s)"
  have eq: "recents (forget_old now s) = dropWhile ?P (recents s)"
    by (simp add: forget_old_def forget_old_loop_dropWhile)
  have removed: "\<exists>t. r = Some t \<and> t < now - window s" if "r \<in> set (takeWhile ?P (recents s))" for r
  proof -
    from that have "?P r" by (rule set_takeWhileD [THEN conjunct2])
    then show ?thesis by (cases r) auto
  qed
  have stop: "case dropWhile ?P (recents s) of
      [] \<Rightarrow> True | None # _ \<Rightarrow> True | Some t # _ \<Rightarrow> now - window s \<le> t"
  proof (cases "dropWhile ?P (recents s)")
    case Nil
    show ?thesis unfolding Nil by simp
  next
    case (Cons r rest)
    have "\<not> ?P (hd (dropWhile ?P (recents s)))"
      by (rule hd_dropWhile) (simp add: Cons)
    then have "\<not> ?P r"
      by (simp add: Cons)
    then show ?thesis unfolding Cons by (cases r) auto
  qed
  from eq removed stop show ?thesis
    by (simp add: forget_old_def forget_old_loop_dropWhile)
qed

theorem forget_old_removes_expired_front_witness:
  "forget_old 10 \<lparr>limit = 4, window = 3, recents = [Some 1, Some 6, Some 8, None],
       waiters = 0, notified = 0\<rparr> =
     \<lparr>limit = 4, window = 3, recents = [Some 8, None], waiters = 0, notified = 0\<rparr> \<and>
   takeWhile (expired 10 3) [Some 1, Some 6, Some 8, None] = [Some 1, Some 6]"
  using forget_old_removes_expired_front [of 10
      "\<lparr>limit = 4, window = 3, recents = [Some 1, Some 6, Some 8, None],
         waiters = 0, notified = 0\<rparr>"]
  by simp

subsection \<open>Release\<close>

text \<open>
  The leftmost pending record is the one both branches of \<open>release\<close> act on.
\<close>

lemma leftmost_pending:
  "None \<in> set rs \<Longrightarrow>
     \<exists>i<length rs. rs ! i = None \<and> (\<forall>j<i. rs ! j \<noteq> None) \<and>
       fill_leftmost ts rs = rs[i := Some ts] \<and>
       deque_remove None rs = Inr (take i rs @ drop (Suc i) rs)"
proof (induction rs)
  case Nil
  then show ?case by simp
next
  case (Cons r rs)
  show ?case
  proof (cases r)
    case None
    then have "0 < length (r # rs) \<and> (r # rs) ! 0 = None \<and> (\<forall>j<0. (r # rs) ! j \<noteq> None) \<and>
       fill_leftmost ts (r # rs) = (r # rs)[0 := Some ts] \<and>
       deque_remove None (r # rs) = Inr (take 0 (r # rs) @ drop (Suc 0) (r # rs))"
      by simp
    then show ?thesis by blast
  next
    case (Some t)
    with Cons.prems have "None \<in> set rs" by simp
    from Cons.IH [OF this] obtain i where i: "i < length rs" "rs ! i = None"
      "\<forall>j<i. rs ! j \<noteq> None" "fill_leftmost ts rs = rs[i := Some ts]"
      "deque_remove None rs = Inr (take i rs @ drop (Suc i) rs)"
      by blast
    have "\<forall>j<Suc i. (r # rs) ! j \<noteq> None"
      using i(3) Some by (auto simp: nth_Cons')
    with i Some have "Suc i < length (r # rs) \<and> (r # rs) ! Suc i = None \<and>
       (\<forall>j<Suc i. (r # rs) ! j \<noteq> None) \<and>
       fill_leftmost ts (r # rs) = (r # rs)[Suc i := Some ts] \<and>
       deque_remove None (r # rs) = Inr (take (Suc i) (r # rs) @ drop (Suc (Suc i)) (r # rs))"
      by simp
    then show ?thesis by blast
  qed
qed

text \<open>
  Claim C3. When the queue holds a pending record, let \<open>i\<close> be the index of the leftmost
  one. \<open>release(ts)\<close> returns with the queue changed at index \<open>i\<close> only, which now holds
  \<open>ts\<close>; \<open>release(ts, does_not_count=True)\<close> returns with that one record taken out and
  all others as they were, in their order. Both notify the condition variable.
\<close>

theorem release_leftmost_pending:
  assumes "None \<in> set (recents s)"
  shows "\<exists>i<length (recents s).
      recents s ! i = None \<and> (\<forall>j<i. recents s ! j \<noteq> None) \<and>
      release ts False s = Inr (cond_notify (s\<lparr>recents := (recents s)[i := Some ts]\<rparr>)) \<and>
      release ts True s =
        Inr (cond_notify (s\<lparr>recents := take i (recents s) @ drop (Suc i) (recents s)\<rparr>))"
  using leftmost_pending [OF assms, of ts] by (auto simp: release_def)

theorem release_leftmost_pending_witness:
  "None \<in> set [Some 1, None, None :: real option] \<and>
   release 7 False \<lparr>limit = 3, window = 1, recents = [Some 1, None, None],
       waiters = 0, notified = 0\<rparr> =
     Inr \<lparr>limit = 3, window = 1, recents = [Some 1, Some 7, None], waiters = 0, notified = 0\<rparr> \<and>
   release 7 True \<lparr>limit = 3, window = 1, recents = [Some 1, None, None],
       waiters = 0, notified = 0\<rparr> =
     Inr \<lparr>limit = 3, window = 1, recents = [Some 1, None], waiters = 0, notified = 0\<rparr>"
  using release_leftmost_pending [of "\<lparr>limit = 3, window = 1, recents = [Some 1, None, None],
       waiters = 0, notified = 0\<rparr>" 7]
  by (simp add: release_def cond_notify_def)

subsection \<open>Reserving and giving the slot back\<close>

text \<open>
  Claim C4. Take a limiter reached by any calls, not at capacity, at a clock reading at
  which \<open>__forget_old\<close> removes nothing. Then \<open>reserve()\<close> returns at once, having
  appended one pending record, and a following \<open>release(ts, does_not_count=True)\<close>
  returns with the queue record for record as it was before the reservation; the limit
  and the window are untouched, and the call has notified the condition variable.
\<close>

theorem reserve_release_uncounted_roundtrip:
  assumes "s = run evs (RateLimit_init n w)"
    and "length (recents s) \<noteq> limit s"
    and "recents (forget_old now s) = recents s"
  shows "\<exists>s1 s2. reserve now s = (Reserved, now, s1) \<and>
      recents s1 = recents s @ [None] \<and>
      release ts True s1 = Inr s2 \<and> s2 = cond_notify s \<and>
      recents s2 = recents s \<and> limit s2 = limit s \<and> window s2 = window s"
proof -
  from assms(1) have wf: "well_formed s"
    by (simp add: reachable_well_formed)
  with assms(2) have room: "length (recents s) < limit s"
    by (simp add: well_formed_def)
  from assms(3) have same: "forget_old now s = s"
    by (simp add: forget_old_def)
  let ?s1 = "s\<lparr>recents := recents s @ [None]\<rparr>"
  from room have "reserve now s = (Reserved, now, ?s1)"
    by (simp add: reserve_def same reserve_loop.simps [of False now s] deque_append_room)
  moreover from wf have "deque_remove None (recents s @ [None]) = Inr (recents s)"
    by (simp add: well_formed_def deque_remove_snoc)
  then have "release ts True ?s1 = Inr (cond_notify s)"
    by (simp add: release_def)
  ultimately show ?thesis
    by simp
qed

theorem reserve_release_uncounted_roundtrip_witness:
  "length (recents (run [Reserve 0, Reserve 0, Release 2 False] (RateLimit_init 3 5))) \<noteq> 3 \<and>
   recents (run [Reserve 0, Reserve 0, Release 2 False] (RateLimit_init 3 5)) = [Some 2, None] \<and>
   (\<exists>s1. reserve 4 (run [Reserve 0, Reserve 0, Release 2 False] (RateLimit_init 3 5)) =
       (Reserved, 4, s1) \<and>
     recents s1 = [Some 2, None, None] \<and>
     release 9 True s1 = Inr (run [Reserve 0, Reserve 0, Release 2 False] (RateLimit_init 3 5)))"
proof -
  let ?s = "run [Reserve 0, Reserve 0, Release 2 False] (RateLimit_init 3 5)"
  have s: "?s = \<lparr>limit = 3, window = 5, recents = [Some 2, None], waiters = 0, notified = 0\<rparr>"
    by (simp add: reserve_def reserve_loop.simps RateLimit_init_def forget_old_def
        deque_append_def release_def cond_notify_def)
  have "length (recents ?s) \<noteq> limit ?s" and "recents (forget_old 4 ?s) = recents ?s"
    and "cond_notify ?s = ?s"
    unfolding s by (simp_all add: forget_old_def cond_notify_def)
  with reserve_release_uncounted_roundtrip [OF refl, of "[Reserve 0, Reserve 0, Release 2 False]" 3 5 4 9]
  show ?thesis
    unfolding s by auto
qed

subsection \<open>Order of the completion time stamps\<close>

lemma sorted_drop_append: "sorted (xs @ ys) \<Longrightarrow> sorted (drop j xs @ ys)"
  by (auto simp: sorted_append sorted_wrt_drop dest: in_set_dropD)

lemma apply_event_sorted:
  assumes "well_formed s"
    and "sorted (completed (recents s) @ completion_times (e # es))"
  shows "sorted (completed (recents (apply_event e s)) @ completion_times es)"
proof (cases e)
  case (Reserve now)
  obtain st now' s' where r: "reserve now s = (st, now', s')"
    by (cases "reserve now s") auto
  from reserve_shape [OF r] obtain k where "loop_result s st s' k" ..
  with assms(1) obtain j where "completed (recents s') = drop j (completed (recents s))"
    using loop_result_completed [of s st s' k] by (auto simp: well_formed_def)
  with assms(2) Reserve r show ?thesis
    by (simp add: sorted_drop_append)
next
  case (Wake now)
  obtain st now' s' where r: "reserve_wake now s = (st, now', s')"
    by (cases "reserve_wake now s") auto
  from reserve_wake_shape [OF r] obtain k
    where "loop_result (s\<lparr>notified := notified s - 1\<rparr>) st s' k" ..
  with assms(1) obtain j where "completed (recents s') = drop j (completed (recents s))"
    using loop_result_completed [of "s\<lparr>notified := notified s - 1\<rparr>" st s' k]
    by (auto simp: well_formed_def)
  with assms(2) Wake r show ?thesis
    by (simp add: sorted_drop_append)
next
  case (Release ts dnc)
  show ?thesis
  proof (cases dnc)
    case True
    show ?thesis
    proof (cases "deque_remove None (recents s)")
      case (Inl err)
      with True Release assms(2) show ?thesis by (simp add: release_def)
    next
      case (Inr rs)
      from deque_remove_None [OF this] have "completed rs = completed (recents s)" by simp
      with Inr True Release assms(2) show ?thesis by (simp add: release_def)
    qed
  next
    case False
    show ?thesis
    proof (cases "None \<in> set (recents s)")
      case True
      with assms(1) have "completed (fill_leftmost ts (recents s)) = completed (recents s) @ [ts]"
        by (simp add: well_formed_def completed_fill_leftmost)
      with False Release assms(2) show ?thesis by (simp add: release_def)
    next
      case no: False
      from assms(2) Release False
      have "sorted (completed (recents s) @ ts # completion_times es)" by simp
      then have "sorted (completed (recents s) @ completion_times es)"
        by (auto simp: sorted_append)
      with no False Release show ?thesis
        by (simp add: release_def fill_leftmost_no_pending)
    qed
  qed
qed

lemma run_sorted:
  "well_formed s \<Longrightarrow> sorted (completed (recents s) @ completion_times evs) \<Longrightarrow>
     sorted (completed (recents (run evs s)))"
proof (induction evs arbitrary: s)
  case Nil
  then show ?case by simp
next
  case (Cons e es)
  from Cons.prems have "well_formed (apply_event e s)"
    and "sorted (completed (recents (apply_event e s)) @ completion_times es)"
    by (simp_all only: apply_event_well_formed apply_event_sorted)
  then have "sorted (completed (recents (run es (apply_event e s))))"
    by (rule Cons.IH)
  then show ?case by simp
qed

text \<open>
  Claim C5, as stated, fails: \<open>release\<close> stores whatever time stamp it is given. Two
  reservations released with 10 and then with 5 leave the completed records 10, 5.
\<close>

theorem completed_sorted_counterexample:
  "\<not> sorted (completed (recents
      (run [Reserve 0, Reserve 0, Release 10 False, Release 5 False] (RateLimit_init 2 1))))"
  by (simp add: reserve_def reserve_loop.simps RateLimit_init_def forget_old_def
      deque_append_def release_def cond_notify_def)

text \<open>
  Claim C5, amended. If the time stamps passed to the counting calls of \<open>release\<close> never
  decrease from one call to the next, then in every state reached from \<open>RateLimit(n, w)\<close>
  the completed records carry non-decreasing time stamps in queue order.
\<close>

theorem completed_sorted:
  assumes "sorted (completion_times evs)"
  shows "sorted (completed (recents (run evs (RateLimit_init n w))))"
proof (rule run_sorted)
  show "well_formed (RateLimit_init n w)"
    by (rule well_formed_init)
  from assms show "sorted (completed (recents (RateLimit_init n w)) @ completion_times evs)"
    by (simp add: RateLimit_init_def)
qed

theorem completed_sorted_witness:
  "sorted (completion_times [Reserve 0, Reserve 0, Release 5 False, Release 10 False]) \<and>
   completed (recents
      (run [Reserve 0, Reserve 0, Release 5 False, Release 10 False] (RateLimit_init 2 1))) = [5, 10] \<and>
   sorted (completed (recents
      (run [Reserve 0, Reserve 0, Release 5 False, Release 10 False] (RateLimit_init 2 1))))"
proof -
  have ts: "sorted (completion_times [Reserve 0, Reserve 0, Release 5 False, Release 10 False])"
    by simp
  have "completed (recents
      (run [Reserve 0, Reserve 0, Release 5 False, Release 10 False] (RateLimit_init 2 1))) = [5, 10]"
    by (simp add: reserve_def reserve_loop.simps RateLimit_init_def forget_old_def
      deque_append_def release_def cond_notify_def)
  with ts completed_sorted [OF ts, of 2 1] show ?thesis
    by simp
qed

subsection \<open>Release without a pending record\<close>

text \<open>
  Claim C10, as stated, fails: with no pending record in the queue, \<open>release(ts)\<close> finds
  no \<open>None\<close> in its loop, notifies and returns; nothing is raised and the queue is as before.
\<close>

theorem release_without_pending_counterexample:
  "None \<notin> set (recents \<lparr>limit = 1, window = 1, recents = [Some 1], waiters = 0, notified = 0\<rparr>) \<and>
   release 5 False \<lparr>limit = 1, window = 1, recents = [Some 1], waiters = 0, notified = 0\<rparr> =
     Inr \<lparr>limit = 1, window = 1, recents = [Some 1], waiters = 0, notified = 0\<rparr>"
  by (simp add: release_def cond_notify_def)

text \<open>
  Claim C10, amended. With no pending record in the queue,
  \<open>release(ts, does_not_count=True)\<close> raises \<open>ValueError\<close> (from \<open>deque.remove\<close>) before
  anything was changed, and \<open>release(ts, does_not_count=False)\<close> returns normally with
  the queue unchanged, having only notified the condition variable.
\<close>

theorem release_without_pending:
  assumes "None \<notin> set (recents s)"
  shows "release ts True s = Inl ValueError \<and>
     release ts False s = Inr (cond_notify s) \<and> recents (cond_notify s) = recents s"
  using assms by (simp add: release_def deque_remove_absent fill_leftmost_no_pending)

theorem release_without_pending_witness:
  "None \<notin> set [Some 1, Some (2 :: real)] \<and>
   release 5 True \<lparr>limit = 2, window = 1, recents = [Some 1, Some 2], waiters = 1, notified = 0\<rparr>
     = Inl ValueError \<and>
   release 5 False \<lparr>limit = 2, window = 1, recents = [Some 1, Some 2], waiters = 1, notified = 0\<rparr>
     = Inr \<lparr>limit = 2, window = 1, recents = [Some 1, Some 2], waiters = 0, notified = 1\<rparr>"
  using release_without_pending [of "\<lparr>limit = 2, window = 1, recents = [Some 1, Some 2],
      waiters = 1, notified = 0\<rparr>" 5]
  by (simp add: cond_notify_def)

subsection \<open>How long a reservation on a full queue takes\<close>

lemma forget_old_loop_length: "length (forget_old_loop th rs) \<le> length rs"
  using forget_old_loop_drop [of th rs] by auto

lemma forget_old_loop_unexpired: "\<not> t < th \<Longrightarrow> forget_old_loop th (Some t # rs) = Some t # rs"
  by simp

text \<open>When the front record of a full queue has expired, \<open>reserve\<close> returns at once.\<close>

lemma reserve_front_expired:
  assumes "length (recents s) = limit s" and "recents s = Some t # rest"
    and "t < now - window s"
  shows "reserve_loop False now (forget_old now s) =
    (Reserved, now, (forget_old now s)\<lparr>recents := recents (forget_old now s) @ [None]\<rparr>)"
proof -
  from assms(2,3) have "recents (forget_old now s) = forget_old_loop (now - window s) rest"
    by (simp add: forget_old_def)
  with assms(1,2) have "length (recents (forget_old now s)) < limit s"
    using forget_old_loop_length [of "now - window s" rest] by simp
  then show ?thesis
    by (simp add: reserve_loop.simps [of False now "forget_old now s"] deque_append_room)
qed

text \<open>
  A full queue with a completed front record: \<open>reserve\<close> returns at once when the record
  has expired, and otherwise one millisecond after the record leaves the window.
\<close>

lemma reserve_full:
  assumes "length (recents s) = limit s" and "recents s = Some t # rest"
  shows "\<exists>s'. reserve now s =
      (Reserved, (if t < now - window s then now else t + window s + 1 / 1000), s')"
proof (cases "t < now - window s")
  case True
  with reserve_front_expired [OF assms this] show ?thesis
    by (simp add: reserve_def)
next
  case False
  let ?wake = "t + window s + 1 / 1000"
  from False assms(2) have same: "forget_old now s = s"
    by (simp add: forget_old_def)
  from False have "time_sleep now (t + window s - now + 1 / 1000) = Inr ?wake"
    by (simp add: time_sleep_def)
  with assms have "reserve_loop False now s = reserve_loop False ?wake (forget_old ?wake s)"
    by (simp add: reserve_loop.simps [of False now s])
  moreover have "t < ?wake - window s"
    by simp
  note reserve_front_expired [OF assms this]
  ultimately show ?thesis
    using False by (simp add: reserve_def same)
qed









subsection \<open>finished\<close>

lemma forget_old_keeps_unexpired:
  "i < length rs \<Longrightarrow> rs ! i = Some t \<Longrightarrow> \<not> t < th \<Longrightarrow>
     \<exists>k\<le>i. forget_old_loop th rs = drop k rs"
proof (induction th rs arbitrary: i rule: forget_old_loop.induct)
  case (1 th)
  then show ?case by simp
next
  case (2 th rs)
  have "forget_old_loop th (None # rs) = drop 0 (None # rs)" by simp
  then show ?case by blast
next
  case (3 th u rs)
  show ?case
  proof (cases "u < th")
    case False
    then have "forget_old_loop th (Some u # rs) = drop 0 (Some u # rs)" by simp
    then show ?thesis by blast
  next
    case True
    with "3.prems" obtain i' where i': "i = Suc i'"
      by (cases i) auto
    with "3.prems" have "i' < length rs" "rs ! i' = Some t"
      by simp_all
    from "3.IH" [OF True this "3.prems"(3)] obtain k
      where "k \<le> i'" "forget_old_loop th rs = drop k rs" by blast
    with True i' have "Suc k \<le> i \<and> forget_old_loop th (Some u # rs) = drop (Suc k) (Some u # rs)"
      by simp
    then show ?thesis by blast
  qed
qed

text \<open>
  Claim C7. Let the error limiter hold a pending record and let \<open>finished(success)\<close> be
  called at clock reading \<open>now\<close>. The call returns; the request limiter is what
  \<open>release(now)\<close> makes of it and the error limiter what \<open>release(now, success)\<close> makes of
  it. After \<open>finished(True)\<close> the error queue is one record shorter and holds the same
  completed records as before: the slot is gone at once. After \<open>finished(False)\<close> the
  error queue has its leftmost pending record, at index \<open>i\<close>, replaced by \<open>now\<close>, and at
  every later clock reading \<open>now'\<close> at which \<open>now\<close> is not older than \<open>now' - window\<close>
  the expiry removes at most the \<open>i\<close> records before it, so the record still takes up
  a place in the queue.
\<close>

theorem finished_accounting:
  assumes "None \<in> set (recents (error_limit m))"
  shows "\<exists>m'. finished success now m = (None, m') \<and>
      release now False (request_limit m) = Inr (request_limit m') \<and>
      release now success (error_limit m) = Inr (error_limit m') \<and>
      (if success
       then Suc (length (recents (error_limit m'))) = length (recents (error_limit m)) \<and>
            completed (recents (error_limit m')) = completed (recents (error_limit m))
       else \<exists>i<length (recents (error_limit m)).
            recents (error_limit m) ! i = None \<and>
            recents (error_limit m') = (recents (error_limit m))[i := Some now] \<and>
            (\<forall>now'. now' - window (error_limit m') \<le> now \<longrightarrow>
               (\<exists>k\<le>i. recents (forget_old now' (error_limit m')) =
                  drop k (recents (error_limit m')))))"
proof -
  let ?e = "error_limit m"
  from leftmost_pending [OF assms, of now] obtain i where i: "i < length (recents ?e)"
    "recents ?e ! i = None" "fill_leftmost now (recents ?e) = (recents ?e)[i := Some now]"
    "deque_remove None (recents ?e) = Inr (take i (recents ?e) @ drop (Suc i) (recents ?e))"
    by blast
  obtain r where r: "release now False (request_limit m) = Inr r"
    by (simp add: release_def)
  show ?thesis
  proof (cases success)
    case True
    let ?e' = "cond_notify (?e\<lparr>recents := take i (recents ?e) @ drop (Suc i) (recents ?e)\<rparr>)"
    from i(4) have e': "release now True ?e = Inr ?e'"
      by (simp add: release_def)
    from deque_remove_None [OF i(4)]
    have "Suc (length (recents ?e')) = length (recents ?e)"
      "completed (recents ?e') = completed (recents ?e)"
      by simp_all
    with True r e' show ?thesis
      by (simp add: finished_def)
  next
    case False
    let ?e' = "cond_notify (?e\<lparr>recents := (recents ?e)[i := Some now]\<rparr>)"
    from i(3) have e': "release now False ?e = Inr ?e'"
      by (simp add: release_def)
    have keep: "\<exists>k\<le>i. recents (forget_old now' ?e') = drop k (recents ?e')"
      if "now' - window ?e' \<le> now" for now'
    proof -
      from i(1) have "i < length (recents ?e')" "recents ?e' ! i = Some now"
        by simp_all
      moreover from that have "\<not> now < now' - window ?e'"
        by simp
      ultimately show ?thesis
        using forget_old_keeps_unexpired [of i "recents ?e'" now "now' - window ?e'"]
        by (simp add: forget_old_def)
    qed
    have "recents ?e' = (recents ?e)[i := Some now]"
      by simp
    with False r e' i(1,2) keep show ?thesis
      by (auto simp: finished_def)
  qed
qed

theorem finished_accounting_witness:
  "None \<in> set (recents (error_limit (run_manager [Admit 0] RateLimitManager_init))) \<and>
   recents (request_limit (snd (finished True 3 (run_manager [Admit 0] RateLimitManager_init))))
     = [Some 3] \<and>
   recents (error_limit (snd (finished True 3 (run_manager [Admit 0] RateLimitManager_init))))
     = [] \<and>
   recents (request_limit (snd (finished False 3 (run_manager [Admit 0] RateLimitManager_init))))
     = [Some 3] \<and>
   recents (error_limit (snd (finished False 3 (run_manager [Admit 0] RateLimitManager_init))))
     = [Some 3] \<and>
   recents (forget_old 183
      (error_limit (snd (finished False 3 (run_manager [Admit 0] RateLimitManager_init)))))
     = [Some 3]"
proof -
  let ?m = "run_manager [Admit 0] RateLimitManager_init"
  have m: "?m = \<lparr>request_limit = (RateLimit_init 30 1)\<lparr>recents := [None]\<rparr>,
      error_limit = (RateLimit_init 300 180)\<lparr>recents := [None]\<rparr>\<rparr>"
    by (simp add: block_until_can_start_new_request_def RateLimitManager_init_def reserve_def
        reserve_loop.simps RateLimit_init_def forget_old_def deque_append_def)
  have pending: "None \<in> set (recents (error_limit ?m))"
    unfolding m by simp
  from finished_accounting [OF pending, of True 3] finished_accounting [OF pending, of False 3]
  show ?thesis
    unfolding m
    by (simp add: finished_def release_def cond_notify_def RateLimit_init_def forget_old_def)
qed

subsection \<open>A sleep of negative length\<close>

lemma forget_old_front_unexpired:
  "forget_old_loop th rs = Some t # rest \<Longrightarrow> \<not> t < th"
  by (induction th rs rule: forget_old_loop.induct) (auto split: if_splits)

text \<open>
  A call of \<open>reserve\<close> that has not waited does not raise, as long as the limit is
  positive: the sleep is computed at the clock reading at which the expiry has just
  found the front record inside the window. Only a thread that goes on after
  \<open>cond.wait()\<close> meets a front record of any age.
\<close>

lemma reserve_fresh_no_exception:
  assumes "0 < limit s"
  shows "fst (reserve now s) = Reserved \<or> fst (reserve now s) = Waiting"
proof -
  let ?s1 = "forget_old now s"
  note step = reserve_loop.simps [of False now ?s1]
  show ?thesis
  proof (cases "length (recents ?s1) = limit ?s1")
    case False
    with step show ?thesis by (simp add: reserve_def)
  next
    case True
    with assms obtain r rest where front: "recents ?s1 = r # rest"
      by (cases "recents ?s1") auto
    show ?thesis
    proof (cases r)
      case None
      with True front step show ?thesis by (simp add: reserve_def)
    next
      case (Some t)
      with front have "\<not> t < now - window ?s1"
        by (auto simp: forget_old_def dest: forget_old_front_unexpired)
      with front Some have "forget_old now ?s1 = ?s1"
        by (simp add: forget_old_def)
      with reserve_full [OF True, of t rest now] front Some show ?thesis
        by (auto simp: reserve_def)
    qed
  qed
qed

text \<open>
  Claim C9 does not hold of the code: \<open>reserve\<close> calls \<open>time.sleep\<close> without looking at the
  sign of its argument. With \<open>RateLimit(1, 1)\<close>: a first thread reserves at clock reading
  0, a second calls \<open>reserve\<close> and waits for the pending front record, the first calls
  \<open>release(0)\<close>, which notifies the second. When the second thread goes on at clock
  reading 100, the front record is \<open>0\<close>, \<open>secs_to_wait\<close> is \<open>0 + 1 - 100\<close>, and
  \<open>time.sleep\<close> is asked for \<open>-98.999\<close> seconds and raises.
\<close>

theorem reserve_negative_sleep:
  "run [Reserve 0, Reserve 0, Release 0 False] (RateLimit_init 1 1) =
     \<lparr>limit = 1, window = 1, recents = [Some 0], waiters = 0, notified = 1\<rparr> \<and>
   reserve_wake 100 (run [Reserve 0, Reserve 0, Release 0 False] (RateLimit_init 1 1)) =
     (Raised ValueError, 100,
      \<lparr>limit = 1, window = 1, recents = [Some 0], waiters = 0, notified = 0\<rparr>) \<and>
   time_sleep 100 (0 + 1 - 100 + 1 / 1000) = Inl ValueError \<and>
   (0 :: real) + 1 - 100 + 1 / 1000 < 0"
  by (simp add: reserve_def reserve_wake_def reserve_loop.simps RateLimit_init_def
      forget_old_def release_def cond_notify_def time_sleep_def deque_append_def)

subsection \<open>Admission\<close>

text \<open>
  While a thread is blocked inside the request limiter, the error limiter is as it was;
  and when the method returns without having waited, the elapsed time is not negative.
\<close>

lemma blocked_on_request_error_untouched:
  assumes "block_until_can_start_new_request now m = (Blocked_on_request, now', m')"
  shows "error_limit m' = error_limit m"
proof -
  obtain st t r where r: "reserve now (request_limit m) = (st, t, r)"
    by (cases "reserve now (request_limit m)") auto
  show ?thesis
  proof (cases st)
    case Reserved
    obtain st2 t2 e where "reserve t (error_limit m) = (st2, t2, e)"
      by (cases "reserve t (error_limit m)") auto
    with assms r Reserved show ?thesis
      by (cases st2) (simp_all add: block_until_can_start_new_request_def)
  next
    case Waiting
    with assms r show ?thesis
      by (auto simp: block_until_can_start_new_request_def)
  next
    case (Raised err)
    with assms r show ?thesis
      by (simp add: block_until_can_start_new_request_def)
  qed
qed

lemma reserve_loop_clock:
  "reserve_loop woken now s = (st, now', s') \<Longrightarrow> now \<le> now'"
proof (induction woken now s arbitrary: st now' s' rule: reserve_loop.induct)
  case (1 woken now s)
  note step = reserve_loop.simps [of woken now s]
  show ?case
  proof (cases "woken \<or> length (recents s) = limit s")
    case False
    with 1(2) step show ?thesis by auto
  next
    case True
    show ?thesis
    proof (cases "recents s")
      case Nil
      with True 1(2) step show ?thesis by auto
    next
      case (Cons r rest)
      show ?thesis
      proof (cases r)
        case None
        with Cons True 1(2) step show ?thesis by auto
      next
        case (Some t)
        show ?thesis
        proof (cases "time_sleep now (t + window s - now + 1 / 1000)")
          case (Inl e)
          with Some Cons True 1(2) step show ?thesis by auto
        next
          case (Inr t')
          with Some Cons True 1(2) step
          have "reserve_loop False t' (forget_old t' s) = (st, now', s')" by auto
          from "1.IH" [OF True Cons Some refl refl Inr this] have "t' \<le> now'" .
          moreover from Inr have "now \<le> t'"
            by (auto simp: time_sleep_def split: if_splits)
          ultimately show ?thesis by simp
        qed
      qed
    qed
  qed
qed

lemma admitted_elapsed:
  assumes "block_until_can_start_new_request now m = (Admitted d, now', m')"
  shows "d = now' - now \<and> 0 \<le> d"
proof -
  obtain st t r where r: "reserve now (request_limit m) = (st, t, r)"
    by (cases "reserve now (request_limit m)") auto
  obtain st2 t2 e where e: "reserve t (error_limit m) = (st2, t2, e)"
    by (cases "reserve t (error_limit m)") auto
  from r e have "now \<le> t" "t \<le> t2"
    by (auto simp: reserve_def dest: reserve_loop_clock)
  moreover from assms r e have "d = t2 - now \<and> now' = t2"
    by (cases st; cases st2) (simp_all add: block_until_can_start_new_request_def)
  ultimately show ?thesis by simp
qed

text \<open>
  Claim C6 does not hold of the code in its part \<open>never fails\<close>: the exception of the
  negative sleep escapes \<open>block_until_can_start_new_request\<close>. Thirty calls are admitted
  at clock reading 0; the next one is blocked inside the request limiter, whose thirty
  records are pending; one call is finished at 0, which completes the front record and
  notifies the blocked thread. When that thread goes on at clock reading 2, the record
  has left the window of one second, \<open>time.sleep\<close> is asked for \<open>-0.999\<close> seconds, and
  the admission ends with \<open>ValueError\<close>.
\<close>

theorem admission_fails:
  "fst (block_until_can_start_new_request 0
      (run_manager (replicate 30 (Admit 0)) RateLimitManager_init)) = Blocked_on_request \<and>
   notified (request_limit
      (run_manager (replicate 31 (Admit 0) @ [Finished True 0]) RateLimitManager_init)) = 1 \<and>
   hd (recents (request_limit
      (run_manager (replicate 31 (Admit 0) @ [Finished True 0]) RateLimitManager_init))) = Some 0 \<and>
   fst (wake_in_request 0 2
      (run_manager (replicate 31 (Admit 0) @ [Finished True 0]) RateLimitManager_init)) =
     Failed ValueError"
  by (simp add: eval_nat_numeral finished_def wake_in_request_def
      block_until_can_start_new_request_def RateLimitManager_init_def reserve_def
      reserve_wake_def reserve_loop.simps RateLimit_init_def forget_old_def release_def
      cond_notify_def time_sleep_def deque_append_def)

end
